theory Spec2Isabelle
  imports Main "HOL-Library.Multiset"
begin

section \<open>The replay memory of MOPDERL (replay\_memory.py)\<close>

text \<open>
  A shallow embedding of the class \<^verbatim>\<open>ReplayMemory\<close>. Python integers are \<open>int\<close>,
  the list \<^verbatim>\<open>self.memory\<close> is a list whose slots hold \<open>None\<close> or a transition,
  exceptions are values of \<open>py_error\<close>, and the choices of the global random
  generator and the float32 conversion of a tensor element are explicit arguments.
\<close>

subsection \<open>Exceptions\<close>

datatype py_error =
  ValueError | IndexError | TypeError | ZeroDivisionError | AttributeError | EOFError

subsection \<open>Arrays\<close>

text \<open>
  An n-dimensional array is its shape and its elements in row-major order.
  The element type is a parameter.
\<close>

datatype 'a ndarray = NDArray (shape: "nat list") (flat: "'a list")

text \<open>\<^verbatim>\<open>np.reshape(arg, (1, -1))\<close>: one row holding every element.\<close>

definition reshape_row :: "'a ndarray \<Rightarrow> 'a ndarray" where
  "reshape_row arg = NDArray [1, length (flat arg)] (flat arg)"

text \<open>
  \<^verbatim>\<open>np.concatenate(arrays)\<close> along axis 0: it raises ValueError for an empty
  sequence, for a zero-dimensional array, and when the arrays differ in their number of
  dimensions or in a dimension other than the first.
\<close>

definition concatenate :: "'a ndarray list \<Rightarrow> py_error + 'a ndarray" where
  "concatenate arrays =
     (case arrays of
        [] \<Rightarrow> Inl ValueError
      | a # rest \<Rightarrow>
          if shape a = [] then Inl ValueError
          else if list_all (\<lambda>b. shape b \<noteq> [] \<and> tl (shape b) = tl (shape a)) rest
          then Inr (NDArray (sum_list (map (\<lambda>b. hd (shape b)) arrays) # tl (shape a))
                            (concat (map flat arrays)))
          else Inl ValueError)"

text \<open>
  \<^verbatim>\<open>torch.FloatTensor(array).to(device)\<close>: a tensor of the shape of the array whose
  elements are the elements of the array converted to float32; moving the tensor to the
  device changes no element. The conversion of one element is the parameter \<open>cast\<close>. It
  is not the identity: float32 has a significand of 24 bits.
\<close>

definition FloatTensor :: "('a \<Rightarrow> 'b) \<Rightarrow> 'a ndarray \<Rightarrow> 'b ndarray" where
  "FloatTensor cast a = NDArray (shape a) (map cast (flat a))"

text \<open>
  The conversion for the elements of an int64 array: the float32 nearest to the integer,
  a tie going to the even significand. Below \<open>2 ^ 24\<close> in magnitude every integer is a
  float32; above, \<open>excess_bits\<close> low bits are rounded away. (An int64 is far below the
  largest float32, so the conversion never overflows.) The float32 is given as the integer
  it denotes.
\<close>

function excess_bits :: "nat \<Rightarrow> nat" where
  "excess_bits a = (if a < 2 ^ 24 then 0 else Suc (excess_bits (a div 2)))"
  by pat_completeness auto
termination
  by (relation "measure id") auto

declare excess_bits.simps [simp del]

definition float32_of_int :: "int \<Rightarrow> int" where
  "float32_of_int x =
     (let a = nat \<bar>x\<bar>;
          e = excess_bits a;
          q = a div 2 ^ e;
          r = a mod 2 ^ e;
          q' = (if 2 ^ e < 2 * r \<or> (2 * r = 2 ^ e \<and> odd q) then Suc q else q)
      in sgn x * int (q' * 2 ^ e))"

text \<open>Rows of a two-dimensional array.\<close>

definition n_rows :: "'a ndarray \<Rightarrow> nat" where
  "n_rows a = hd (shape a)"

definition row :: "'a ndarray \<Rightarrow> nat \<Rightarrow> 'a list" where
  "row a i = take (shape a ! 1) (drop (i * (shape a ! 1)) (flat a))"

subsection \<open>Transitions and the buffer\<close>

record 'a transition =
  state :: "'a ndarray"
  action :: "'a ndarray"
  reward :: "'a ndarray"
  next_state :: "'a ndarray"
  done_t :: "'a ndarray"

record 'a replay_memory =
  capacity :: int
  memory :: "'a transition option list"
  position :: int

text \<open>\<^verbatim>\<open>__init__\<close> (the device handle is only passed through to the tensors).\<close>

definition init :: "int \<Rightarrow> 'a replay_memory" where
  "init c = \<lparr>capacity = c, memory = [], position = 0\<rparr>"

subsection \<open>Python list indexing and slicing\<close>

text \<open>\<^verbatim>\<open>xs[i] = v\<close>: a negative index counts from the end, an index out of range raises.\<close>

definition list_setitem :: "'x list \<Rightarrow> int \<Rightarrow> 'x \<Rightarrow> py_error + 'x list" where
  "list_setitem xs i v =
     (let n = int (length xs) in
      if - n \<le> i \<and> i < n then Inr (xs[nat (if i < 0 then i + n else i) := v])
      else Inl IndexError)"

text \<open>A slice bound: a negative bound counts from the end, and every bound is clamped.\<close>

definition slice_index :: "nat \<Rightarrow> int \<Rightarrow> nat" where
  "slice_index n i = (if i < 0 then nat (int n + i) else min (nat i) n)"

text \<open>\<^verbatim>\<open>xs[i:]\<close> and \<^verbatim>\<open>xs[:j]\<close>; slicing never raises.\<close>

definition slice_from :: "'x list \<Rightarrow> int \<Rightarrow> 'x list" where
  "slice_from xs i = drop (slice_index (length xs) i) xs"

definition slice_to :: "'x list \<Rightarrow> int \<Rightarrow> 'x list" where
  "slice_to xs j = take (slice_index (length xs) j) xs"

subsection \<open>add\<close>

text \<open>
  The five positional arguments are given as a transition record. A slot is appended
  while the list is shorter than the capacity, the reshaped transition is written at the
  cursor, and the cursor advances modulo the capacity.
\<close>

definition reshaped :: "'a transition \<Rightarrow> 'a transition" where
  "reshaped args =
     \<lparr>state = reshape_row (state args), action = reshape_row (action args),
      reward = reshape_row (reward args), next_state = reshape_row (next_state args),
      done_t = reshape_row (done_t args)\<rparr>"

definition add :: "'a replay_memory \<Rightarrow> 'a transition \<Rightarrow> py_error + 'a replay_memory" where
  "add self args =
     (let mem = (if int (length (memory self)) < capacity self
                 then memory self @ [None] else memory self)
      in case list_setitem mem (position self) (Some (reshaped args)) of
           Inl e \<Rightarrow> Inl e
         | Inr mem' \<Rightarrow>
             if capacity self = 0 then Inl ZeroDivisionError
             else Inr (self\<lparr>memory := mem',
                            position := (position self + 1) mod capacity self\<rparr>))"

text \<open>
  The loop \<^verbatim>\<open>for transition in latest_trans: self.add(*transition)\<close>; unpacking a
  \<open>None\<close> slot raises TypeError.
\<close>

fun add_each :: "'a replay_memory \<Rightarrow> 'a transition option list \<Rightarrow> py_error + 'a replay_memory" where
  "add_each self [] = Inr self"
| "add_each self (None # rest) = Inl TypeError"
| "add_each self (Some t # rest) =
     (case add self t of Inl e \<Rightarrow> Inl e | Inr self' \<Rightarrow> add_each self' rest)"

subsection \<open>get\_latest, transfer, length, reset\<close>

definition get_latest :: "'a replay_memory \<Rightarrow> int \<Rightarrow> 'a transition option list" where
  "get_latest self latest =
     (if capacity self < latest
      then slice_from (memory self) (position self) @ slice_to (memory self) (position self)
      else if int (length (memory self)) < capacity self
      then slice_from (memory self) (- latest)
      else if position self \<ge> latest
      then slice_from (slice_to (memory self) (position self)) (- latest)
      else slice_from (memory self) (- latest + position self)
             @ slice_to (memory self) (position self))"

definition add_content_of :: "'a replay_memory \<Rightarrow> 'a replay_memory \<Rightarrow> py_error + 'a replay_memory" where
  "add_content_of self other = add_each self (get_latest other (capacity self))"

definition add_latest_from ::
  "'a replay_memory \<Rightarrow> 'a replay_memory \<Rightarrow> int \<Rightarrow> py_error + 'a replay_memory" where
  "add_latest_from self other latest = add_each self (get_latest other latest)"

definition len :: "'a replay_memory \<Rightarrow> int" where
  "len self = int (length (memory self))"

definition reset :: "'a replay_memory \<Rightarrow> 'a replay_memory" where
  "reset self = self\<lparr>memory := [], position := 0\<rparr>"

subsection \<open>Sampling\<close>

text \<open>
  \<^verbatim>\<open>random.sample(population, k)\<close> raises ValueError unless \<open>0 \<le> k \<le> len(population)\<close>;
  otherwise it returns the elements at \<open>k\<close> distinct positions chosen by the generator.
  The chosen positions are the argument \<open>sel\<close>; \<open>selection\<close> is what the generator
  guarantees about them.
\<close>

definition selection :: "nat \<Rightarrow> int \<Rightarrow> nat list \<Rightarrow> bool" where
  "selection n k sel \<longleftrightarrow> int (length sel) = k \<and> distinct sel \<and> list_all (\<lambda>i. i < n) sel"

definition random_sample :: "nat list \<Rightarrow> 'x list \<Rightarrow> int \<Rightarrow> py_error + 'x list" where
  "random_sample sel population k =
     (if 0 \<le> k \<and> k \<le> int (length population)
      then Inr (map (\<lambda>i. population ! i) sel)
      else Inl ValueError)"

text \<open>
  \<^verbatim>\<open>batch = Transition(*zip(*transitions))\<close>: unpacking a \<open>None\<close> element raises
  TypeError, and so does the empty list (the constructor then gets no argument).
\<close>

fun unpack_all :: "'x option list \<Rightarrow> py_error + 'x list" where
  "unpack_all [] = Inr []"
| "unpack_all (None # rest) = Inl TypeError"
| "unpack_all (Some t # rest) =
     (case unpack_all rest of Inl e \<Rightarrow> Inl e | Inr ts \<Rightarrow> Inr (t # ts))"

type_synonym 'a batch = "'a ndarray \<times> 'a ndarray \<times> 'a ndarray \<times> 'a ndarray \<times> 'a ndarray"

text \<open>
  The five concatenations, in the order the source runs them (state, action,
  next\_state, reward, done), each result converted to a float tensor (the conversion
  raises nothing, so it is written once, on the five results); the tensors are returned
  as (state, action, reward, next\_state, done).
\<close>

definition group_batch :: "('a \<Rightarrow> 'b) \<Rightarrow> 'a transition option list \<Rightarrow> py_error + 'b batch" where
  "group_batch cast transitions =
     (case unpack_all transitions of
        Inl e \<Rightarrow> Inl e
      | Inr [] \<Rightarrow> Inl TypeError
      | Inr ts \<Rightarrow>
         (case concatenate (map state ts) of Inl e \<Rightarrow> Inl e | Inr st \<Rightarrow>
         (case concatenate (map action ts) of Inl e \<Rightarrow> Inl e | Inr ac \<Rightarrow>
         (case concatenate (map next_state ts) of Inl e \<Rightarrow> Inl e | Inr ns \<Rightarrow>
         (case concatenate (map reward ts) of Inl e \<Rightarrow> Inl e | Inr rw \<Rightarrow>
         (case concatenate (map done_t ts) of Inl e \<Rightarrow> Inl e | Inr dn \<Rightarrow>
            Inr (FloatTensor cast st, FloatTensor cast ac, FloatTensor cast rw,
                 FloatTensor cast ns, FloatTensor cast dn)))))))"

text \<open>
  \<open>sample\<close> and \<open>sample_from_latest\<close> return their outcome together with the buffer
  after the call: neither assigns to a field of the buffer.
\<close>

definition sample ::
  "('a \<Rightarrow> 'b) \<Rightarrow> nat list \<Rightarrow> 'a replay_memory \<Rightarrow> int
     \<Rightarrow> (py_error + 'b batch) \<times> 'a replay_memory" where
  "sample cast sel self batch_size =
     (case random_sample sel (memory self) batch_size of
        Inl e \<Rightarrow> (Inl e, self)
      | Inr transitions \<Rightarrow> (group_batch cast transitions, self))"

definition sample_from_latest ::
  "('a \<Rightarrow> 'b) \<Rightarrow> nat list \<Rightarrow> 'a replay_memory \<Rightarrow> int \<Rightarrow> int
     \<Rightarrow> (py_error + 'b batch) \<times> 'a replay_memory" where
  "sample_from_latest cast sel self batch_size latest =
     (let latest_trans = get_latest self latest in
      case random_sample sel latest_trans batch_size of
        Inl e \<Rightarrow> (Inl e, self)
      | Inr transitions \<Rightarrow> (group_batch cast transitions, self))"

subsection \<open>Persistence\<close>

text \<open>
  A file is the sequence of array records written by \<^verbatim>\<open>np.save\<close>: the integer header
  \<open>[len(memory), position]\<close>, then five arrays for every transition.
\<close>

datatype 'a npy = Ints "int list" | Vals "'a ndarray"

fun save_records :: "'a transition option list \<Rightarrow> py_error + 'a npy list" where
  "save_records [] = Inr []"
| "save_records (None # rest) = Inl AttributeError"
| "save_records (Some tr # rest) =
     (case save_records rest of
        Inl e \<Rightarrow> Inl e
      | Inr recs \<Rightarrow>
          Inr (Vals (state tr) # Vals (action tr) # Vals (reward tr)
               # Vals (next_state tr) # Vals (done_t tr) # recs))"

definition save_info :: "'a replay_memory \<Rightarrow> py_error + 'a npy list" where
  "save_info self =
     (case save_records (memory self) of
        Inl e \<Rightarrow> Inl e
      | Inr recs \<Rightarrow> Inr (Ints [int (length (memory self)), position self] # recs))"

text \<open>
  The loop of \<open>load_info\<close>: \<open>n\<close> times, five arrays are read and added. Reading past
  the end of the file raises EOFError; an integer record in the place of a field
  array is outside the element type of the model and is refused as a ValueError.
\<close>

fun load_loop :: "nat \<Rightarrow> 'a npy list \<Rightarrow> 'a replay_memory \<Rightarrow> py_error + 'a replay_memory" where
  "load_loop 0 f self = Inr self"
| "load_loop (Suc n) (Vals s # Vals a # Vals r # Vals ns # Vals d # f) self =
     (case add self \<lparr>state = s, action = a, reward = r, next_state = ns, done_t = d\<rparr> of
        Inl e \<Rightarrow> Inl e
      | Inr self' \<Rightarrow> load_loop n f self')"
| "load_loop (Suc n) f self =
     (if length f < 5 then Inl EOFError else Inl ValueError)"

text \<open>
  \<open>load_info\<close> empties the list (the cursor is left as it is), reads the header, runs
  the loop and then overwrites the cursor. \<^verbatim>\<open>range(length)\<close> is empty for a negative
  \<open>length\<close>.
\<close>

definition load_info :: "'a replay_memory \<Rightarrow> 'a npy list \<Rightarrow> py_error + 'a replay_memory" where
  "load_info self f =
     (let self1 = self\<lparr>memory := []\<rparr> in
      case f of
        [] \<Rightarrow> Inl EOFError
      | Vals info # rest \<Rightarrow> Inl TypeError
      | Ints info # rest \<Rightarrow>
          (case info of
             length_ # pos # _ \<Rightarrow>
               (case load_loop (nat length_) rest self1 of
                  Inl e \<Rightarrow> Inl e
                | Inr self2 \<Rightarrow> Inr (self2\<lparr>position := pos\<rparr>))
           | _ \<Rightarrow> Inl IndexError))"

subsection \<open>Notions used to state the properties\<close>

text \<open>The last \<open>k\<close> elements of a list (the whole list when it is shorter).\<close>

definition lastn :: "nat \<Rightarrow> 'x list \<Rightarrow> 'x list" where
  "lastn k xs = drop (length xs - k) xs"

text \<open>
  What \<open>add\<close> stores: a transition whose five arrays have the shape
  \<open>(1, feature_count)\<close>.
\<close>

definition row_shaped :: "'a ndarray \<Rightarrow> bool" where
  "row_shaped a \<longleftrightarrow> shape a = [1, length (flat a)]"

definition stored :: "'a transition option \<Rightarrow> bool" where
  "stored slot =
     (case slot of
        None \<Rightarrow> False
      | Some t \<Rightarrow> row_shaped (state t) \<and> row_shaped (action t) \<and> row_shaped (reward t)
                  \<and> row_shaped (next_state t) \<and> row_shaped (done_t t))"

text \<open>
  The data model of the buffer: a positive capacity, at most \<open>capacity\<close> stored
  transitions, a cursor in \<open>[0, capacity)\<close> that is the length of the list until the
  list is full, and no empty slot.
\<close>

definition buffer_inv :: "'a replay_memory \<Rightarrow> bool" where
  "buffer_inv self \<longleftrightarrow>
     0 < capacity self \<and> int (length (memory self)) \<le> capacity self \<and>
     0 \<le> position self \<and> position self < capacity self \<and>
     (if int (length (memory self)) < capacity self
      then position self = int (length (memory self)) else True) \<and>
     list_all stored (memory self)"

text \<open>The stored transitions read from the oldest slot to the newest.\<close>

definition chron :: "'a replay_memory \<Rightarrow> 'a transition option list" where
  "chron self =
     (if int (length (memory self)) < capacity self then memory self
      else drop (nat (position self)) (memory self) @ take (nat (position self)) (memory self))"

text \<open>A sequence of calls of \<open>add\<close>, one per element, stopping at the first exception.\<close>

fun add_all :: "'a replay_memory \<Rightarrow> 'a transition list \<Rightarrow> py_error + 'a replay_memory" where
  "add_all self [] = Inr self"
| "add_all self (t # rest) =
     (case add self t of Inl e \<Rightarrow> Inl e | Inr self' \<Rightarrow> add_all self' rest)"

text \<open>
  The numbers of columns of the five stored arrays, and buffers whose stored transitions
  all agree in them (the fixed per-field feature count of the data model; \<open>add\<close> does
  not check it).
\<close>

definition field_widths :: "'a transition \<Rightarrow> nat list" where
  "field_widths t =
     [length (flat (state t)), length (flat (action t)), length (flat (reward t)),
      length (flat (next_state t)), length (flat (done_t t))]"

definition same_widths :: "'a transition option \<Rightarrow> 'a transition option \<Rightarrow> bool" where
  "same_widths s u =
     (case s of None \<Rightarrow> True
      | Some t \<Rightarrow> (case u of None \<Rightarrow> True | Some v \<Rightarrow> field_widths t = field_widths v))"

definition uniform :: "'a replay_memory \<Rightarrow> bool" where
  "uniform self \<longleftrightarrow> list_all (\<lambda>s. list_all (same_widths s) (memory self)) (memory self)"

text \<open>A two-dimensional array with \<open>k\<close> rows.\<close>

definition two_dim_rows :: "'a ndarray \<Rightarrow> nat \<Rightarrow> bool" where
  "two_dim_rows a k \<longleftrightarrow> length (shape a) = 2 \<and> n_rows a = k"

text \<open>The array records that \<open>save_info\<close> writes for a list of transitions.\<close>

fun records_of :: "'a transition list \<Rightarrow> 'a npy list" where
  "records_of [] = []"
| "records_of (t # ts) =
     Vals (state t) # Vals (action t) # Vals (reward t) # Vals (next_state t)
       # Vals (done_t t) # records_of ts"

subsection \<open>Concrete inputs\<close>

text \<open>
  Arguments of \<open>add\<close> as a training loop passes them: a state vector, an action, a
  scalar reward, the next state and a scalar flag.
\<close>

definition ex_args :: "int \<Rightarrow> int transition" where
  "ex_args i =
     \<lparr>state = NDArray [2] [i, i + 1], action = NDArray [1] [i], reward = NDArray [] [i],
      next_state = NDArray [2] [i + 1, i + 2], done_t = NDArray [] [0]\<rparr>"

definition ex_slot :: "int \<Rightarrow> int transition option" where
  "ex_slot i = Some (reshaped (ex_args i))"

definition ex_wrapped :: "int replay_memory" where
  "ex_wrapped = \<lparr>capacity = 3, memory = [ex_slot 3, ex_slot 1, ex_slot 2], position = 1\<rparr>"

definition ex_one :: "int replay_memory" where
  "ex_one = \<lparr>capacity = 3, memory = [ex_slot 7], position = 1\<rparr>"

definition ex_five :: "int replay_memory" where
  "ex_five = \<lparr>capacity = 5, memory = [ex_slot 3, ex_slot 1, ex_slot 2], position = 1\<rparr>"

definition ex_file :: "int npy list" where
  "ex_file = Ints [1, 1] # records_of [reshaped (ex_args 7)]"

definition ex_full :: "int replay_memory" where
  "ex_full = \<lparr>capacity = 2, memory = [ex_slot 0, ex_slot 1], position = 0\<rparr>"

definition ex_src :: "int replay_memory" where
  "ex_src = \<lparr>capacity = 5, memory = [ex_slot 0, ex_slot 1, ex_slot 2], position = 3\<rparr>"

definition ex_dst :: "int replay_memory" where
  "ex_dst = \<lparr>capacity = 2, memory = [ex_slot 2, ex_slot 1], position = 1\<rparr>"

definition ex_wide :: "int transition" where
  "ex_wide =
     \<lparr>state = NDArray [3] [5, 6, 7], action = NDArray [1] [5], reward = NDArray [] [5],
      next_state = NDArray [3] [6, 7, 8], done_t = NDArray [] [1]\<rparr>"

definition ex_mixed :: "int replay_memory" where
  "ex_mixed = \<lparr>capacity = 2, memory = [ex_slot 0, Some (reshaped ex_wide)], position = 0\<rparr>"

text \<open>A transition whose state holds \<open>2 ^ 24 + 1\<close>, and the buffer after adding it.\<close>

definition ex_big_args :: "int transition" where
  "ex_big_args =
     \<lparr>state = NDArray [1] [16777217], action = NDArray [1] [0], reward = NDArray [] [0],
      next_state = NDArray [1] [16777217], done_t = NDArray [] [0]\<rparr>"

definition ex_big :: "int replay_memory" where
  "ex_big = \<lparr>capacity = 1, memory = [Some (reshaped ex_big_args)], position = 0\<rparr>"

section \<open>Properties\<close>

subsection \<open>Auxiliary facts\<close>

lemma lastn_all: "length xs \<le> k \<Longrightarrow> lastn k xs = xs"
  by (simp add: lastn_def)

lemma length_lastn: "length (lastn k xs) = min k (length xs)"
  by (simp add: lastn_def)

lemma lastn_lastn_append: "lastn k (lastn k xs @ ys) = lastn k (xs @ ys)"
proof (cases "length xs \<le> k")
  case True
  then show ?thesis by (simp add: lastn_all)
next
  case False
  then have "length xs + length ys - k = (length xs - k) + length ys"
    and "k + length ys - k = length ys" by simp_all
  then show ?thesis using False
    by (simp add: lastn_def add.commute)
qed

lemma stored_reshaped: "stored (Some (reshaped t))"
  by (simp add: stored_def reshaped_def row_shaped_def reshape_row_def)

lemma reshaped_stored: "stored (Some t) \<Longrightarrow> reshaped t = t"
  by (cases t) (simp add: stored_def reshaped_def row_shaped_def reshape_row_def ndarray.expand)

lemma list_all_update: "list_all P xs \<Longrightarrow> P v \<Longrightarrow> list_all P (xs[i := v])"
  by (induction xs arbitrary: i) (auto split: nat.splits)

lemma add_not_full:
  assumes "0 < capacity b" "int (length (memory b)) < capacity b"
    "position b = int (length (memory b))"
  shows "add b t = Inr (b\<lparr>memory := memory b @ [Some (reshaped t)],
                        position := (int (length (memory b)) + 1) mod capacity b\<rparr>)"
  using assms by (simp add: add_def list_setitem_def)

lemma add_full:
  assumes "0 < capacity b" "int (length (memory b)) = capacity b"
    "0 \<le> position b" "position b < capacity b"
  shows "add b t = Inr (b\<lparr>memory := (memory b)[nat (position b) := Some (reshaped t)],
                        position := (position b + 1) mod capacity b\<rparr>)"
  using assms by (simp add: add_def list_setitem_def)

lemma add_inv:
  assumes "buffer_inv b"
  shows "\<exists>b'. add b t = Inr b' \<and> buffer_inv b' \<and> capacity b' = capacity b \<and>
          chron b' = lastn (nat (capacity b)) (chron b @ [Some (reshaped t)])"
proof (cases "int (length (memory b)) < capacity b")
  case True
  with assms have pos: "position b = int (length (memory b))" and cap: "0 < capacity b"
    by (simp_all add: buffer_inv_def)
  let ?b' = "b\<lparr>memory := memory b @ [Some (reshaped t)],
                position := (int (length (memory b)) + 1) mod capacity b\<rparr>"
  have a: "add b t = Inr ?b'" using add_not_full[OF cap True pos] .
  show ?thesis
  proof (cases "int (length (memory b)) + 1 < capacity b")
    case True
    then have inv: "buffer_inv ?b'" using assms
      by (simp add: buffer_inv_def stored_reshaped)
    have "chron ?b' = memory b @ [Some (reshaped t)]" using True by (simp add: chron_def)
    moreover have "chron b = memory b" using \<open>int (length (memory b)) < capacity b\<close>
      by (simp add: chron_def)
    moreover have "lastn (nat (capacity b)) (memory b @ [Some (reshaped t)]) = memory b @ [Some (reshaped t)]"
      using True by (intro lastn_all) simp
    ultimately show ?thesis using a inv by simp
  next
    case False
    with \<open>int (length (memory b)) < capacity b\<close> have eq: "int (length (memory b)) + 1 = capacity b" by simp
    then have inv: "buffer_inv ?b'" using assms
      by (simp add: buffer_inv_def stored_reshaped)
    have "chron ?b' = memory b @ [Some (reshaped t)]" using eq by (simp add: chron_def)
    moreover have "chron b = memory b" using \<open>int (length (memory b)) < capacity b\<close>
      by (simp add: chron_def)
    moreover have "lastn (nat (capacity b)) (memory b @ [Some (reshaped t)]) = memory b @ [Some (reshaped t)]"
      using eq by (intro lastn_all) simp
    ultimately show ?thesis using a inv by simp
  qed
next
  case False
  with assms have full: "int (length (memory b)) = capacity b" and cap: "0 < capacity b"
    and p0: "0 \<le> position b" and p1: "position b < capacity b"
    by (simp_all add: buffer_inv_def)
  define p where "p = nat (position b)"
  define m where "m = memory b"
  define v where "v = Some (reshaped t)"
  have pl: "p < length m" using p0 p1 full by (simp add: p_def m_def)
  have capn: "nat (capacity b) = length m" using full by (simp add: m_def)
  let ?b' = "b\<lparr>memory := m[p := v], position := (position b + 1) mod capacity b\<rparr>"
  have a: "add b t = Inr ?b'" using add_full[OF cap full p0 p1] by (simp add: p_def m_def v_def)
  have cb: "chron b = drop p m @ take p m" using full by (simp add: chron_def p_def m_def)
  have "length (chron b @ [v]) - length m = Suc 0" using pl by (simp add: cb)
  then have "lastn (length m) (chron b @ [v]) = drop (Suc 0) (drop p m @ take p m @ [v])"
    by (simp add: lastn_def cb)
  also have "\<dots> = drop (Suc p) m @ take p m @ [v]" using pl by simp
  finally have ln: "lastn (length m) (chron b @ [v]) = drop (Suc p) m @ take p m @ [v]" .
  show ?thesis
  proof (cases "Suc p < length m")
    case True
    then have pm: "(position b + 1) mod capacity b = int (Suc p)"
      using p0 full by (simp add: p_def m_def)
    have inv: "buffer_inv ?b'" using assms True full pm
      by (simp add: buffer_inv_def stored_reshaped m_def v_def list_all_update)
    have np: "nat ((position b + 1) mod capacity b) = Suc p" using pm by simp
    have "take (Suc p) (m[p := v]) = take p m @ [v]"
      using pl by (simp add: take_Suc_conv_app_nth)
    then have "chron ?b' = drop (Suc p) m @ take p m @ [v]"
      using full by (simp add: chron_def m_def np)
    then show ?thesis using a inv ln capn by (simp add: v_def)
  next
    case False
    with pl have e: "Suc p = length m" by simp
    then have "position b + 1 = capacity b"
      using p0 full by (simp add: p_def m_def)
    then have pm: "(position b + 1) mod capacity b = 0" by simp
    have inv: "buffer_inv ?b'" using assms full pm
      by (simp add: buffer_inv_def stored_reshaped m_def v_def list_all_update)
    have "m[p := v] = take p m @ [v]" using e
      by (metis Suc_n_not_le_n append_Nil2 drop_all lessI nat_le_linear upd_conv_take_nth_drop)
    then have "chron ?b' = drop (Suc p) m @ take p m @ [v]"
      using full pm e by (simp add: chron_def m_def)
    then show ?thesis using a inv ln capn by (simp add: v_def)
  qed
qed

lemma length_chron: "length (chron b) = length (memory b)"
  by (auto simp add: chron_def min_def)

lemma mset_chron: "mset (chron b) = mset (memory b)"
proof -
  have "mset (drop (nat (position b)) (memory b)) + mset (take (nat (position b)) (memory b))
          = mset (memory b)"
    by (metis append_take_drop_id mset_append union_commute)
  then show ?thesis by (simp add: chron_def)
qed

lemma chron_init: "chron (init c) = []"
  by (simp add: chron_def init_def)

lemma buffer_inv_init: "0 < c \<Longrightarrow> buffer_inv (init c)"
  by (simp add: buffer_inv_def init_def)

lemma add_each_Some: "add_each b (map Some ts) = add_all b ts"
  by (induction ts arbitrary: b) (auto split: sum.splits)

lemma add_all_inv:
  assumes "buffer_inv b"
  shows "\<exists>b'. add_all b ts = Inr b' \<and> buffer_inv b' \<and> capacity b' = capacity b \<and>
          chron b' = lastn (nat (capacity b)) (chron b @ map (\<lambda>t. Some (reshaped t)) ts)"
  using assms
proof (induction ts arbitrary: b)
  case Nil
  then have "int (length (memory b)) \<le> capacity b"
    by (simp add: buffer_inv_def)
  then have "length (chron b) \<le> nat (capacity b)"
    by (simp add: length_chron)
  then show ?case using Nil by (simp add: lastn_all)
next
  case (Cons t ts)
  from add_inv[OF Cons.prems, of t] obtain b1 where
    a: "add b t = Inr b1" and i: "buffer_inv b1" and c: "capacity b1 = capacity b"
    and ch: "chron b1 = lastn (nat (capacity b)) (chron b @ [Some (reshaped t)])"
    by blast
  from Cons.IH[OF i] obtain b' where
    a': "add_all b1 ts = Inr b'" and i': "buffer_inv b'" and c': "capacity b' = capacity b1"
    and ch': "chron b' = lastn (nat (capacity b1)) (chron b1 @ map (\<lambda>t. Some (reshaped t)) ts)"
    by blast
  have "chron b' = lastn (nat (capacity b)) (chron b @ map (\<lambda>t. Some (reshaped t)) (t # ts))"
    by (simp add: ch' c ch lastn_lastn_append)
  then show ?case using a a' i' c c' by simp
qed

lemma get_latest_chron:
  assumes "buffer_inv b" "0 < n"
  shows "get_latest b n = lastn (nat n) (chron b)"
proof -
  define m where "m = memory b"
  define p where "p = nat (position b)"
  from assms(1) have cap: "0 < capacity b" and le: "int (length m) \<le> capacity b"
    and p0: "0 \<le> position b" and p1: "position b < capacity b"
    and nf: "int (length m) < capacity b \<Longrightarrow> position b = int (length m)"
    by (simp_all add: buffer_inv_def m_def)
  have pp: "position b = int p" using p0 by (simp add: p_def)
  have ple: "p \<le> length m" using le p1 nf pp by (cases "int (length m) < capacity b") auto
  show ?thesis
  proof (cases "capacity b < n")
    case True
    have "length (chron b) \<le> nat n" using le True by (simp add: length_chron m_def)
    then have r: "lastn (nat n) (chron b) = chron b" by (rule lastn_all)
    have "get_latest b n = drop p m @ take p m"
      using True ple by (simp add: get_latest_def slice_from_def slice_to_def slice_index_def pp m_def min_def)
    also have "\<dots> = chron b"
    proof (cases "int (length m) < capacity b")
      case True
      from nf[OF True] have "p = length m" by (simp add: p_def)
      then show ?thesis using True by (simp add: chron_def m_def)
    next
      case False
      then show ?thesis by (simp add: chron_def m_def p_def)
    qed
    finally show ?thesis using r by simp
  next
    case nle: False
    show ?thesis
    proof (cases "int (length m) < capacity b")
      case True
      have "nat (int (length m) + - n) = length m - nat n" using assms(2) by linarith
      then have "slice_index (length m) (- n) = length m - nat n"
        using assms(2) by (simp add: slice_index_def)
      then show ?thesis using nle True
        by (simp add: get_latest_def slice_from_def chron_def lastn_def m_def)
    next
      case False
      with le have full: "int (length m) = capacity b" by simp
      then have pl: "p < length m" using p1 pp by simp
      have nl: "nat n \<le> length m" using nle full by simp
      show ?thesis
      proof (cases "position b \<ge> n")
        case True
        then have np: "nat n \<le> p" using pp by simp
        have "get_latest b n = drop (p - nat n) (take p m)"
          using nle full True assms(2) pl np
          by (simp add: get_latest_def slice_from_def slice_to_def slice_index_def m_def pp
              nat_diff_distrib min_def)
        also have "\<dots> = lastn (nat n) (drop p m @ take p m)"
          using pl np nl by (simp add: lastn_def min_def)
        finally show ?thesis using full by (simp add: chron_def m_def p_def)
      next
        case False
        then have np: "p < nat n" using pp assms(2) by simp
        have "nat (int (length m) + (- n + int p)) = length m + p - nat n"
          using assms(2) by linarith
        then have "slice_index (length m) (- n + position b) = length m + p - nat n"
          using False by (simp add: slice_index_def pp)
        moreover have "slice_index (length m) (position b) = p"
          using pl by (simp add: slice_index_def pp)
        ultimately have "get_latest b n = drop (length m + p - nat n) m @ take p m"
          using nle full False
          by (simp add: get_latest_def slice_from_def slice_to_def m_def)
        also have "\<dots> = lastn (nat n) (drop p m @ take p m)"
          using pl np nl by (simp add: lastn_def min_def)
        finally show ?thesis using full by (simp add: chron_def m_def p_def)
      qed
    qed
  qed
qed

lemma lastn_lastn: "lastn a (lastn b xs) = lastn (min a b) xs"
proof -
  have "(length xs - (length xs - b) - a) + (length xs - b) = length xs - min a b"
    by arith
  then show ?thesis unfolding lastn_def length_drop drop_drop by simp
qed

lemma add_count:
  assumes "0 < capacity b" "0 \<le> n" "int (length (memory b)) = min n (capacity b)"
    "position b = n mod capacity b"
  shows "\<exists>b'. add b t = Inr b' \<and> capacity b' = capacity b \<and>
           int (length (memory b')) = min (n + 1) (capacity b) \<and>
           position b' = (n + 1) mod capacity b"
proof (cases "int (length (memory b)) < capacity b")
  case True
  with assms have n: "n = int (length (memory b))" by (simp add: min_def split: if_splits)
  then have "position b = int (length (memory b))" using assms True by simp
  from add_not_full[OF assms(1) True this, of t] show ?thesis
    using True n by (simp add: min_def)
next
  case False
  with assms have full: "int (length (memory b)) = capacity b" and nc: "capacity b \<le> n"
    by (simp_all add: min_def split: if_splits)
  have "0 \<le> position b" "position b < capacity b" using assms(1,4) by simp_all
  from add_full[OF assms(1) full this, of t] show ?thesis
    using nc full assms(4) by (simp add: min_def mod_add_left_eq)
qed

lemma add_all_count:
  assumes "0 < capacity b" "0 \<le> n" "int (length (memory b)) = min n (capacity b)"
    "position b = n mod capacity b"
  shows "\<exists>b'. add_all b ts = Inr b' \<and> capacity b' = capacity b \<and>
           int (length (memory b')) = min (n + int (length ts)) (capacity b) \<and>
           position b' = (n + int (length ts)) mod capacity b"
  using assms
proof (induction ts arbitrary: b n)
  case Nil
  then show ?case by simp
next
  case (Cons t ts)
  from add_count[OF Cons.prems, of t] obtain b1 where
    a: "add b t = Inr b1" and c: "capacity b1 = capacity b"
    and l: "int (length (memory b1)) = min (n + 1) (capacity b1)"
    and p: "position b1 = (n + 1) mod capacity b1"
    by auto
  have "0 < capacity b1" "0 \<le> n + 1" using Cons.prems c by simp_all
  from Cons.IH[OF this l p] show ?case using a c by (simp add: algebra_simps)
qed

text \<open>
  Claim C2. In a buffer constructed with a positive capacity \<open>C\<close>, after each of a
  sequence of inserts (after the first \<open>k\<close> of them, for every \<open>k\<close>), no insert
  has raised, the stored count is \<open>min k C\<close> and the write cursor is \<open>k mod C\<close>.
\<close>

theorem insert_invariant:
  assumes "0 < C" "k \<le> length ts"
  shows "\<exists>b. add_all (init C) (take k ts) = Inr b \<and> capacity b = C \<and>
           len b = min (int k) C \<and> position b = int k mod C"
proof -
  have "0 < capacity (init C)" "(0::int) \<le> 0"
    "int (length (memory (init C))) = min 0 (capacity (init C))"
    "position (init C) = 0 mod capacity (init C)"
    using assms(1) by (simp_all add: init_def)
  from add_all_count[OF this, of "take k ts"] show ?thesis
    using assms(2) by (simp add: len_def init_def min.absorb2)
qed

theorem insert_invariant_witness:
  "\<exists>b. add_all (init 3) (take 4 [ex_args 0, ex_args 1, ex_args 2, ex_args 3, ex_args 4]) = Inr b
       \<and> capacity b = 3 \<and> len b = 3 \<and> position b = 1"
  using insert_invariant[of 3 4 "[ex_args 0, ex_args 1, ex_args 2, ex_args 3, ex_args 4]"]
  by simp

lemma add_all_init:
  assumes "0 < C"
  shows "\<exists>b. add_all (init C) ts = Inr b \<and> buffer_inv b \<and> capacity b = C \<and>
           chron b = lastn (nat C) (map (\<lambda>t. Some (reshaped t)) ts)"
  using add_all_inv[OF buffer_inv_init[OF assms], of ts]
  by (simp add: chron_init) (simp add: init_def)

text \<open>
  Claim C3. After \<open>C + k\<close> inserts (\<open>k \<ge> 1\<close>) into a new buffer of positive capacity
  \<open>C\<close>, the storage holds exactly the last \<open>C\<close> inserted items (as a multiset: each
  as often as it was inserted among the last \<open>C\<close>), and \<open>get_latest C\<close> returns them
  in the order of their insertion. An inserted item is stored reshaped to one row.
\<close>

theorem overwrite_correctness:
  assumes "0 < C" "1 \<le> k" "length ts = nat C + k"
  shows "\<exists>b. add_all (init C) ts = Inr b \<and>
           mset (memory b) = mset (map (\<lambda>t. Some (reshaped t)) (drop k ts)) \<and>
           get_latest b C = map (\<lambda>t. Some (reshaped t)) (drop k ts)"
proof -
  from add_all_init[OF assms(1), of ts] obtain b where
    a: "add_all (init C) ts = Inr b" and i: "buffer_inv b" and c: "capacity b = C"
    and ch: "chron b = lastn (nat C) (map (\<lambda>t. Some (reshaped t)) ts)"
    by blast
  have ch': "chron b = map (\<lambda>t. Some (reshaped t)) (drop k ts)"
    using assms(3) by (simp add: ch lastn_def drop_map)
  have "get_latest b C = lastn (nat C) (chron b)"
    using get_latest_chron[OF i assms(1)] .
  also have "\<dots> = chron b" by (simp add: ch lastn_lastn)
  finally have "get_latest b C = map (\<lambda>t. Some (reshaped t)) (drop k ts)" using ch' by simp
  moreover have "mset (memory b) = mset (map (\<lambda>t. Some (reshaped t)) (drop k ts))"
    using mset_chron[of b] ch' by simp
  ultimately show ?thesis using a by blast
qed

theorem overwrite_correctness_witness:
  "\<exists>b. add_all (init 3) [ex_args 0, ex_args 1, ex_args 2, ex_args 3, ex_args 4] = Inr b \<and>
       mset (memory b) = mset [ex_slot 2, ex_slot 3, ex_slot 4] \<and>
       get_latest b 3 = [ex_slot 2, ex_slot 3, ex_slot 4]"
  using overwrite_correctness[of 3 2 "[ex_args 0, ex_args 1, ex_args 2, ex_args 3, ex_args 4]"]
  by (simp add: ex_slot_def)

text \<open>
  Claim C1. For a buffer of the data model and \<open>n > 0\<close>, \<open>get_latest n\<close> is given by
  the four branches: the whole storage from the cursor to the end and then from the start
  to the cursor when \<open>capacity < n\<close>; the last \<open>n\<close> elements of the storage when the
  buffer is not full; \<open>storage[cursor-n : cursor]\<close> when it is full and \<open>n \<le> cursor\<close>;
  \<open>storage[cursor-n :] ++ storage[:cursor]\<close>, of length \<open>n\<close>, when it is full and
  \<open>cursor < n\<close>. In every branch the result is the most recently inserted transitions,
  oldest first: when the buffer is the result of inserting \<open>ts\<close> into a new buffer, the
  result is the last \<open>min n capacity\<close> elements of \<open>ts\<close> (all of \<open>ts\<close> when it is
  shorter), each reshaped as stored.
\<close>

theorem get_latest_branches:
  assumes "buffer_inv self" "0 < n"
  shows "(capacity self < n \<longrightarrow>
            get_latest self n = drop (nat (position self)) (memory self)
                                  @ take (nat (position self)) (memory self)) \<and>
         (n \<le> capacity self \<and> len self < capacity self \<longrightarrow>
            get_latest self n = lastn (nat n) (memory self)) \<and>
         (n \<le> capacity self \<and> len self = capacity self \<and> n \<le> position self \<longrightarrow>
            get_latest self n = take (nat n) (drop (nat (position self - n)) (memory self))) \<and>
         (n \<le> capacity self \<and> len self = capacity self \<and> position self < n \<longrightarrow>
            get_latest self n = drop (nat (len self + (position self - n))) (memory self)
                                  @ take (nat (position self)) (memory self) \<and>
            int (length (get_latest self n)) = n) \<and>
         (\<forall>ts. add_all (init (capacity self)) ts = Inr self \<longrightarrow>
            get_latest self n = lastn (nat (min n (capacity self))) (map (\<lambda>t. Some (reshaped t)) ts))"
proof -
  define m where "m = memory self"
  define p where "p = nat (position self)"
  from assms(1) have cap: "0 < capacity self" and le: "int (length m) \<le> capacity self"
    and p0: "0 \<le> position self" and p1: "position self < capacity self"
    and nf: "int (length m) < capacity self \<Longrightarrow> position self = int (length m)"
    by (simp_all add: buffer_inv_def m_def)
  have gl: "get_latest self n = lastn (nat n) (chron self)"
    using get_latest_chron[OF assms] .
  have ple: "p \<le> length m" using le p1 nf p0
    by (cases "int (length m) < capacity self") (auto simp add: p_def)
  have b1: "capacity self < n \<longrightarrow> get_latest self n = drop p m @ take p m"
  proof
    assume a: "capacity self < n"
    have "slice_index (length m) (position self) = p"
      using p0 ple by (simp add: slice_index_def p_def)
    then show "get_latest self n = drop p m @ take p m"
      using a by (simp add: get_latest_def slice_from_def slice_to_def m_def)
  qed
  have b2: "n \<le> capacity self \<and> len self < capacity self \<longrightarrow> get_latest self n = lastn (nat n) m"
    by (simp add: gl chron_def len_def m_def)
  have b3: "n \<le> capacity self \<and> len self = capacity self \<and> n \<le> position self \<longrightarrow>
            get_latest self n = take (nat n) (drop (nat (position self - n)) m)"
  proof
    assume a: "n \<le> capacity self \<and> len self = capacity self \<and> n \<le> position self"
    have pn: "nat (position self - n) = p - nat n" using assms(2) by (simp add: p_def nat_diff_distrib)
    from a have "n \<le> position self" by simp
    then have np: "nat n \<le> p" by (simp add: p_def nat_mono)
    have "lastn (nat n) (drop p m @ take p m) = drop (p - nat n) (take p m)"
      using ple np by (simp add: lastn_def min_def)
    also have "\<dots> = take (nat n) (drop (p - nat n) m)"
      using np by (simp add: drop_take)
    finally show "get_latest self n = take (nat n) (drop (nat (position self - n)) m)"
      using a by (simp add: gl chron_def len_def pn flip: m_def p_def)
  qed
  have b4: "n \<le> capacity self \<and> len self = capacity self \<and> position self < n \<longrightarrow>
            get_latest self n = drop (nat (len self + (position self - n))) m @ take p m \<and>
            int (length (get_latest self n)) = n"
  proof
    assume a: "n \<le> capacity self \<and> len self = capacity self \<and> position self < n"
    then have full: "int (length m) = capacity self" by (simp add: len_def m_def)
    have np: "p < nat n" using a p0 by (simp add: p_def)
    have nl: "nat n \<le> length m" using a full by linarith
    have e: "nat (len self + (position self - n)) = length m + p - nat n"
      using assms(2) p0 by (simp add: len_def p_def flip: m_def)
    have "lastn (nat n) (drop p m @ take p m) = drop (length m + p - nat n) m @ take p m"
      using ple np nl by (simp add: lastn_def min_def)
    then have g: "get_latest self n = drop (length m + p - nat n) m @ take p m"
      using full by (simp add: gl chron_def flip: m_def p_def)
    have "length (get_latest self n) = nat n"
      using ple np nl by (simp add: g min_def)
    then have li: "int (length (get_latest self n)) = n" using assms(2) by simp
    from g have g': "get_latest self n =
        drop (nat (len self + (position self - n))) m @ take p m" by (simp only: e)
    show "get_latest self n = drop (nat (len self + (position self - n))) m @ take p m \<and>
            int (length (get_latest self n)) = n"
      by (rule conjI[OF g' li])
  qed
  have b5: "\<forall>ts. add_all (init (capacity self)) ts = Inr self \<longrightarrow>
            get_latest self n = lastn (nat (min n (capacity self))) (map (\<lambda>t. Some (reshaped t)) ts)"
  proof (intro allI impI)
    fix ts assume a: "add_all (init (capacity self)) ts = Inr self"
    from add_all_init[OF cap, of ts] a
    have "chron self = lastn (nat (capacity self)) (map (\<lambda>t. Some (reshaped t)) ts)" by simp
    moreover have "min (nat n) (nat (capacity self)) = nat (min n (capacity self))"
      by (simp add: min_def)
    ultimately show "get_latest self n =
        lastn (nat (min n (capacity self))) (map (\<lambda>t. Some (reshaped t)) ts)"
      by (simp add: gl lastn_lastn)
  qed
  show ?thesis using b1 b2 b3 b4 b5 unfolding m_def p_def by blast
qed

theorem get_latest_branches_witness:
  "buffer_inv ex_wrapped \<and> (0::int) < 2 \<and>
   get_latest ex_wrapped 2 = [ex_slot 2, ex_slot 3] \<and>
   int (length (get_latest ex_wrapped 2)) = 2"
proof -
  have i: "buffer_inv ex_wrapped"
    by (simp add: buffer_inv_def ex_wrapped_def ex_slot_def stored_reshaped)
  from get_latest_branches[OF i, of 2] show ?thesis
    using i by (simp add: ex_wrapped_def len_def)
qed

lemma save_records_Some: "save_records (map Some ts) = Inr (records_of ts)"
  by (induction ts) simp_all

lemma load_loop_records: "load_loop (length ts) (records_of ts @ rest) b = add_all b ts"
proof (induction ts arbitrary: b)
  case Nil
  then show ?case by simp
next
  case (Cons t ts)
  then show ?case by (cases t) (simp cong: sum.case_cong)
qed

lemma stored_list:
  assumes "list_all stored mem"
  shows "\<exists>ts. mem = map Some ts"
  using assms
proof (induction mem)
  case Nil
  then show ?case by simp
next
  case (Cons s mem)
  then obtain ts where ts: "mem = map Some ts" by auto
  from Cons.prems obtain t where t: "s = Some t" by (cases s) (simp_all add: stored_def)
  from ts t have "s # mem = map Some (t # ts)" by simp
  then show ?case by (rule exI[of _ "t # ts"])
qed

lemma map_reshaped_id:
  assumes "list_all stored (map Some ts)"
  shows "map (\<lambda>t. Some (reshaped t)) ts = map Some ts"
  using assms
proof (induction ts)
  case Nil
  then show ?case by simp
next
  case (Cons t ts)
  from Cons.prems have "stored (Some t)" and r: "list_all stored (map Some ts)" by simp_all
  then have "Some (reshaped t) = Some t" by (simp only: reshaped_stored)
  with Cons.IH[OF r] show ?case by (simp only: list.map)
qed

lemma add_all_append:
  assumes "0 < capacity b" "int (length (memory b) + length ts) \<le> capacity b"
    "position b = int (length (memory b)) mod capacity b"
  shows "add_all b ts = Inr (b\<lparr>memory := memory b @ map (\<lambda>t. Some (reshaped t)) ts,
            position := int (length (memory b) + length ts) mod capacity b\<rparr>)"
  using assms
proof (induction ts arbitrary: b)
  case Nil
  then show ?case by simp
next
  case (Cons t ts)
  let ?b1 = "b\<lparr>memory := memory b @ [Some (reshaped t)],
                position := (int (length (memory b)) + 1) mod capacity b\<rparr>"
  have lt: "int (length (memory b)) < capacity b" using Cons.prems(2) by simp
  then have p: "position b = int (length (memory b))" using Cons.prems(3) by simp
  have a: "add b t = Inr ?b1" using add_not_full[OF Cons.prems(1) lt p] .
  have "0 < capacity ?b1" "int (length (memory ?b1) + length ts) \<le> capacity ?b1"
    "position ?b1 = int (length (memory ?b1)) mod capacity ?b1"
    using Cons.prems by (simp_all add: add.commute)
  from Cons.IH[OF this] show ?case using a by (simp add: algebra_simps)
qed

lemma load_info_saved:
  assumes "buffer_inv B" "capacity B \<le> C"
  shows "\<exists>f. save_info B = Inr f \<and>
           load_info (init C) f = Inr \<lparr>capacity = C, memory = memory B, position = position B\<rparr>"
proof -
  from assms(1) have st: "list_all stored (memory B)" and cap: "0 < capacity B"
    and le: "int (length (memory B)) \<le> capacity B"
    by (simp_all add: buffer_inv_def)
  from stored_list[OF st] obtain ts where
    ts: "memory B = map Some ts" by blast
  from st have rs: "list_all stored (map Some ts)" by (simp only: ts)
  define f where "f = Ints [int (length ts), position B] # records_of ts"
  have s: "save_info B = Inr f"
    by (simp add: save_info_def ts save_records_Some f_def)
  have "0 < capacity (init C)" "int (length (memory (init C)) + length ts) \<le> capacity (init C)"
    "position (init C) = int (length (memory (init C))) mod capacity (init C)"
    using cap le assms(2) by (simp_all add: init_def ts)
  from add_all_append[OF this]
  have aa: "add_all (init C) ts = Inr \<lparr>capacity = C, memory = map Some ts,
                position = int (length ts) mod C\<rparr>"
    by (simp add: init_def map_reshaped_id[OF rs])
  have "load_loop (length ts) (records_of ts @ []) (init C) = add_all (init C) ts"
    by (rule load_loop_records)
  then have "load_loop (length ts) (records_of ts) (init C) = add_all (init C) ts" by simp
  then have "load_info (init C) f = Inr \<lparr>capacity = C, memory = memory B, position = position B\<rparr>"
    using aa by (simp add: load_info_def f_def ts) (simp add: init_def)
  with s show ?thesis by blast
qed

text \<open>
  Claim C4, amended. For a buffer \<open>B\<close> of the data model, \<open>save_info\<close> succeeds and
  \<open>load_info\<close> of the saved file into a new buffer of capacity \<open>C \<ge> capacity B\<close>
  succeeds and gives a buffer of the same length. Its \<open>get_latest (len)\<close> equals that of
  \<open>B\<close> when \<open>C = capacity B\<close>, and for a larger \<open>C\<close> when \<open>B\<close> is not full or its
  cursor is 0.
\<close>
theorem save_load_roundtrip:
  assumes "buffer_inv B" "capacity B \<le> C"
  shows "\<exists>f b'. save_info B = Inr f \<and> load_info (init C) f = Inr b' \<and> len b' = len B \<and>
           (C = capacity B \<or> len B < capacity B \<or> position B = 0 \<longrightarrow>
              get_latest b' (len b') = get_latest B (len B))"
proof -
  define b' where "b' = \<lparr>capacity = C, memory = memory B, position = position B\<rparr>"
  from load_info_saved[OF assms] obtain f where
    f: "save_info B = Inr f" "load_info (init C) f = Inr b'" unfolding b'_def by blast
  have l: "len b' = len B" by (simp add: len_def b'_def)
  from assms(1) have cap: "0 < capacity B" and le: "len B \<le> capacity B"
    by (simp_all add: buffer_inv_def len_def)
  have whole: "slice_from (memory B) (- len B) = memory B"
    by (simp add: slice_from_def slice_index_def len_def)
  have g: "get_latest b' (len b') = get_latest B (len B)"
    if c: "C = capacity B \<or> len B < capacity B \<or> position B = 0"
  proof (cases "C = capacity B")
    case True
    then have "b' = B" by (simp add: b'_def)
    then show ?thesis by simp
  next
    case False
    with assms(2) have gt: "capacity B < C" by simp
    have "get_latest b' (len b') = slice_from (memory B) (- len B)"
      using gt le by (simp add: get_latest_def b'_def len_def)
    also have "\<dots> = get_latest B (len B)"
    proof (cases "len B < capacity B")
      case True
      then show ?thesis by (simp add: get_latest_def len_def)
    next
      case False
      with c \<open>C \<noteq> capacity B\<close> have p: "position B = 0" by simp
      from False le have "len B = capacity B" by simp
      then show ?thesis using cap p
        by (simp add: get_latest_def len_def slice_to_def slice_index_def)
    qed
    finally show ?thesis .
  qed
  show ?thesis using f l g by blast
qed

lemma buffer_inv_ex_wrapped: "buffer_inv ex_wrapped"
  by (simp add: buffer_inv_def ex_wrapped_def ex_slot_def stored_reshaped)

theorem save_load_roundtrip_witness:
  "\<exists>f b'. save_info ex_wrapped = Inr f \<and> load_info (init 3) f = Inr b' \<and>
     len b' = 3 \<and> get_latest b' (len b') = [ex_slot 1, ex_slot 2, ex_slot 3]"
proof -
  have g: "get_latest ex_wrapped 3 = [ex_slot 1, ex_slot 2, ex_slot 3]"
    by (simp add: get_latest_def ex_wrapped_def slice_from_def slice_to_def slice_index_def)
  have l: "len ex_wrapped = 3" "capacity ex_wrapped = 3"
    by (simp_all add: len_def ex_wrapped_def)
  from save_load_roundtrip[OF buffer_inv_ex_wrapped, of 3] show ?thesis
    unfolding l g by simp
qed

text \<open>
  Claim C4 as stated fails for a strictly larger capacity: a full buffer of capacity 3
  whose cursor is 1 is saved and loaded into a new buffer of capacity 5. The loaded buffer
  is not full, so \<open>get_latest 3\<close> returns its storage in slot order, while the saved
  buffer returns it in insertion order.
\<close>
theorem save_load_larger_counterexample:
  "save_info ex_wrapped = Inr (Ints [3, 1] # records_of (map (\<lambda>i. reshaped (ex_args i)) [3, 1, 2])) \<and>
   load_info (init 5) (Ints [3, 1] # records_of (map (\<lambda>i. reshaped (ex_args i)) [3, 1, 2]))
     = Inr ex_five \<and>
   len ex_five = len ex_wrapped \<and>
   get_latest ex_wrapped (len ex_wrapped) = [ex_slot 1, ex_slot 2, ex_slot 3] \<and>
   get_latest ex_five (len ex_five) = [ex_slot 3, ex_slot 1, ex_slot 2] \<and>
   get_latest ex_five (len ex_five) \<noteq> get_latest ex_wrapped (len ex_wrapped)"
proof -
  have idem: "reshaped (reshaped t) = reshaped t" for t :: "int transition"
    using reshaped_stored[OF stored_reshaped] .
  define ts where "ts = map (\<lambda>i. reshaped (ex_args i)) [3, 1, 2]"
  have s: "save_info ex_wrapped = Inr (Ints [3, 1] # records_of ts)"
    by (simp add: save_info_def ex_wrapped_def ex_slot_def ts_def)
  have "load_loop (length ts) (records_of ts @ []) (init 5) = add_all (init 5) ts"
    by (rule load_loop_records)
  moreover have "length ts = 3" by (simp add: ts_def)
  ultimately have ll: "load_loop 3 (records_of ts) (init 5) = add_all (init 5) ts" by simp
  have "0 < capacity (init 5 :: int replay_memory)"
    "int (length (memory (init 5 :: int replay_memory)) + length ts) \<le> capacity (init 5 :: int replay_memory)"
    "position (init 5 :: int replay_memory)
       = int (length (memory (init 5 :: int replay_memory))) mod capacity (init 5 :: int replay_memory)"
    by (simp_all add: init_def ts_def)
  from add_all_append[OF this]
  have aa: "add_all (init 5) ts = Inr \<lparr>capacity = 5, memory = [ex_slot 3, ex_slot 1, ex_slot 2],
                                       position = 3\<rparr>"
    by (simp add: init_def ts_def idem ex_slot_def)
  have l: "load_info (init 5) (Ints [3, 1] # records_of ts) = Inr ex_five"
    using ll aa by (simp add: load_info_def ex_five_def) (simp add: init_def)
  have n: "len ex_five = 3" "len ex_wrapped = 3" by (simp_all add: len_def ex_five_def ex_wrapped_def)
  have g1: "get_latest ex_wrapped 3 = [ex_slot 1, ex_slot 2, ex_slot 3]"
    by (simp add: get_latest_def ex_wrapped_def slice_from_def slice_to_def slice_index_def)
  have g2: "get_latest ex_five 3 = [ex_slot 3, ex_slot 1, ex_slot 2]"
    by (simp add: get_latest_def ex_five_def slice_from_def slice_to_def slice_index_def)
  have d: "ex_slot 3 \<noteq> ex_slot 1"
    by (simp add: ex_slot_def reshaped_def ex_args_def reshape_row_def)
  show ?thesis unfolding n g1 g2 using s l d by (simp add: ts_def)
qed

lemma reshaped_idem: "reshaped (reshaped t) = reshaped t"
  using reshaped_stored[OF stored_reshaped] .

lemma take_min_length: "take (min n (length xs)) xs = take n xs"
  by (simp add: min_def)

lemma load_loop_one: "load_loop (nat 1) (records_of [t]) b = add_all b [t]"
  using load_loop_records[of "[t]" "[]" b] by simp

text \<open>
  Claim C5 at a used buffer. \<open>load_info\<close> empties the list and leaves the cursor where
  it is, so the first \<open>add\<close> appends one slot and writes at the old cursor: a buffer of
  capacity 3 holding one transition (cursor 1) cannot load the file it has itself saved,
  the assignment raises IndexError. After \<open>reset\<close>, which also sets the cursor to 0, the
  same file loads and reproduces the buffer.
\<close>
theorem load_into_used_buffer:
  "buffer_inv ex_one \<and> save_info ex_one = Inr ex_file \<and>
   load_info ex_one ex_file = Inl IndexError \<and>
   load_info (reset ex_one) ex_file = Inr ex_one"
proof -
  have i: "buffer_inv ex_one"
    by (simp add: buffer_inv_def ex_one_def ex_slot_def stored_reshaped)
  have s: "save_info ex_one = Inr ex_file"
    by (simp add: save_info_def ex_one_def ex_slot_def ex_file_def)
  have "add (ex_one\<lparr>memory := []\<rparr>) (reshaped (ex_args 7)) = Inl IndexError"
    by (simp add: add_def list_setitem_def ex_one_def)
  then have l: "load_info ex_one ex_file = Inl IndexError"
    unfolding load_info_def ex_file_def Let_def list.case npy.case load_loop_one by simp
  have "add (reset ex_one\<lparr>memory := []\<rparr>) (reshaped (ex_args 7)) = Inr ex_one"
    by (simp add: add_def list_setitem_def ex_one_def reset_def reshaped_idem ex_slot_def)
  then have r: "load_info (reset ex_one) ex_file = Inr ex_one"
    unfolding load_info_def ex_file_def Let_def list.case npy.case load_loop_one
    by (simp add: ex_one_def)
  from i s l r show ?thesis by simp
qed

text \<open>
  Claim C9, amended. \<open>get_latest 0\<close> returns the entire storage when the buffer is not
  full, and \<open>storage[:cursor]\<close> when it is full with a cursor above 0 (a non-empty list
  when the storage is not empty); when the buffer is full and the cursor is 0 it returns
  the empty list.
\<close>
theorem get_latest_zero:
  "(len self < capacity self \<longrightarrow> get_latest self 0 = memory self) \<and>
   (len self = capacity self \<and> 0 < position self \<longrightarrow>
      get_latest self 0 = take (nat (position self)) (memory self) \<and>
      (memory self \<noteq> [] \<longrightarrow> get_latest self 0 \<noteq> [])) \<and>
   (len self = capacity self \<and> position self = 0 \<longrightarrow> get_latest self 0 = [])"
  by (auto simp add: get_latest_def len_def slice_from_def slice_to_def slice_index_def
      take_min_length)

theorem get_latest_zero_witness:
  "get_latest ex_src 0 = [ex_slot 0, ex_slot 1, ex_slot 2] \<and>
   get_latest ex_dst 0 = [ex_slot 2]"
  using get_latest_zero[of ex_src] get_latest_zero[of ex_dst]
  by (simp add: len_def ex_src_def ex_dst_def)

text \<open>
  Claim C9 as stated fails for a full buffer whose cursor is 0: after two inserts into a
  buffer of capacity 2 the storage is not empty and \<open>get_latest 0\<close> is empty.
\<close>
theorem get_latest_zero_counterexample:
  "add_all (init 2) [ex_args 0, ex_args 1] = Inr ex_full \<and> memory ex_full \<noteq> [] \<and>
   get_latest ex_full 0 = []"
proof -
  have "0 < capacity (init 2 :: int replay_memory)"
    "int (length (memory (init 2 :: int replay_memory)) + length [ex_args 0, ex_args 1])
       \<le> capacity (init 2 :: int replay_memory)"
    "position (init 2 :: int replay_memory)
       = int (length (memory (init 2 :: int replay_memory))) mod capacity (init 2 :: int replay_memory)"
    by (simp_all add: init_def)
  from add_all_append[OF this]
  have "add_all (init 2) [ex_args 0, ex_args 1] = Inr ex_full"
    by (simp add: init_def ex_full_def ex_slot_def)
  moreover have "get_latest ex_full 0 = []"
    by (simp add: get_latest_def ex_full_def slice_from_def slice_to_def slice_index_def)
  moreover have "memory ex_full \<noteq> []" by (simp add: ex_full_def)
  ultimately show ?thesis by simp
qed

text \<open>
  Claim C10. \<open>sample_from_latest batch_size n\<close> raises ValueError, and leaves the buffer
  as it is, whenever \<open>batch_size\<close> exceeds the length of the pool \<open>get_latest n\<close>,
  whatever the generator would choose and also when \<open>batch_size \<le> n\<close>.
\<close>
theorem sample_from_latest_short_pool:
  "int (length (get_latest self n)) < batch_size \<Longrightarrow>
     sample_from_latest cast sel self batch_size n = (Inl ValueError, self)"
  by (simp add: sample_from_latest_def random_sample_def)

theorem sample_from_latest_short_pool_witness:
  "(2::int) \<le> 3 \<and> get_latest ex_one 3 = [ex_slot 7] \<and>
   sample_from_latest float32_of_int [0, 1] ex_one 2 3 = (Inl ValueError, ex_one)"
proof -
  have g: "get_latest ex_one 3 = [ex_slot 7]"
    by (simp add: get_latest_def ex_one_def slice_from_def slice_index_def)
  then have "int (length (get_latest ex_one 3)) < 2" by simp
  from sample_from_latest_short_pool[OF this, of float32_of_int "[0, 1]"] g show ?thesis by simp
qed

lemma list_all_lastn: "list_all P xs \<Longrightarrow> list_all P (lastn k xs)"
  unfolding lastn_def list_all_iff using set_drop_subset[of "length xs - k" xs] by blast

lemma stored_chron:
  assumes "buffer_inv b"
  shows "list_all stored (chron b)"
proof -
  from assms have "list_all stored (memory b)" by (simp add: buffer_inv_def)
  moreover have "set (chron b) = set (memory b)"
    using mset_chron[of b] by (metis set_mset_mset)
  ultimately show ?thesis by (simp add: list_all_iff)
qed

text \<open>
  The transfer for \<open>n \<ge> 1\<close>, where \<open>get_latest\<close> returns at most \<open>n\<close> elements as
  documented: for a source buffer of the data model, \<open>add_latest_from source n\<close> on a
  new buffer of capacity at least \<open>n\<close> succeeds, and \<open>get_latest n\<close> of the destination
  equals \<open>get_latest n\<close> of the source.
\<close>
theorem add_latest_from_preserves_order:
  assumes "buffer_inv other" "1 \<le> n" "n \<le> C"
  shows "\<exists>self'. add_latest_from (init C) other n = Inr self' \<and>
           get_latest self' n = get_latest other n"
proof -
  define L where "L = get_latest other n"
  have n0: "0 < n" using assms(2) by simp
  have L: "L = lastn (nat n) (chron other)"
    unfolding L_def using get_latest_chron[OF assms(1) n0] .
  have lenL: "length L \<le> nat n" by (simp add: L length_lastn)
  have "list_all stored L" unfolding L using stored_chron[OF assms(1)] by (rule list_all_lastn)
  then obtain ts where ts: "L = map Some ts" using stored_list by blast
  with \<open>list_all stored L\<close> have "list_all stored (map Some ts)" by simp
  then have rs: "map (\<lambda>t. Some (reshaped t)) ts = L" unfolding ts by (rule map_reshaped_id)
  have C0: "0 < C" using assms(2,3) by simp
  from add_all_init[OF C0, of ts] obtain d where
    a: "add_all (init C) ts = Inr d" and i: "buffer_inv d"
    and ch: "chron d = lastn (nat C) (map (\<lambda>t. Some (reshaped t)) ts)"
    by blast
  have "length L \<le> nat C" using lenL assms(3) by linarith
  then have chL: "chron d = L" unfolding ch rs by (rule lastn_all)
  have "get_latest d n = lastn (nat n) (chron d)" using get_latest_chron[OF i n0] .
  also have "\<dots> = L" unfolding chL using lenL by (rule lastn_all)
  finally have g: "get_latest d n = get_latest other n" by (simp add: L_def)
  have "add_latest_from (init C) other n = Inr d"
    unfolding add_latest_from_def using a ts by (simp add: L_def[symmetric] add_each_Some)
  with g show ?thesis by blast
qed

lemma buffer_inv_ex_src: "buffer_inv ex_src"
  by (simp add: buffer_inv_def ex_src_def ex_slot_def stored_reshaped)

theorem add_latest_from_preserves_order_witness:
  "\<exists>self'. add_latest_from (init 2) ex_src 2 = Inr self' \<and>
      get_latest self' 2 = [ex_slot 1, ex_slot 2]"
proof -
  have g: "get_latest ex_src 2 = [ex_slot 1, ex_slot 2]"
    by (simp add: get_latest_def ex_src_def slice_from_def slice_index_def)
  from add_latest_from_preserves_order[OF buffer_inv_ex_src, of 2 2] show ?thesis
    unfolding g by simp
qed

text \<open>
  Claim C7 at \<open>n = 0\<close>. The argument is documented as the number of latest elements to
  return and to add, but for a buffer that is not full \<open>get_latest 0\<close> takes the slice
  \<open>memory[-0:]\<close>, the whole list: the source (capacity 5, three transitions) returns all
  three, all three are added to the new destination of capacity 2 (at least \<open>n\<close>), which
  is then full with cursor 1 and returns \<open>storage[:1]\<close> for \<open>get_latest 0\<close>, so the two
  results differ. In the other branch, a full buffer with cursor 0, \<open>get_latest 0\<close> is
  the empty list.
\<close>
theorem add_latest_from_zero:
  "buffer_inv ex_src \<and> (0::int) \<le> 2 \<and> add_latest_from (init 2) ex_src 0 = Inr ex_dst \<and>
   get_latest ex_src 0 = [ex_slot 0, ex_slot 1, ex_slot 2] \<and>
   get_latest ex_dst 0 = [ex_slot 2] \<and>
   get_latest ex_dst 0 \<noteq> get_latest ex_src 0 \<and>
   get_latest ex_full 0 = []"
proof -
  have g: "get_latest ex_src 0 = [ex_slot 0, ex_slot 1, ex_slot 2]"
    by (simp add: get_latest_def ex_src_def slice_from_def slice_index_def)
  have a0: "add (init 2) (reshaped (ex_args 0))
              = Inr \<lparr>capacity = 2, memory = [ex_slot 0], position = 1\<rparr>"
    by (simp add: add_def list_setitem_def init_def reshaped_idem ex_slot_def)
  have a1: "add \<lparr>capacity = 2, memory = [ex_slot 0], position = 1\<rparr> (reshaped (ex_args 1))
              = Inr \<lparr>capacity = 2, memory = [ex_slot 0, ex_slot 1], position = 0\<rparr>"
    by (simp add: add_def list_setitem_def reshaped_idem ex_slot_def)
  have a2: "add \<lparr>capacity = 2, memory = [ex_slot 0, ex_slot 1], position = 0\<rparr>
                (reshaped (ex_args 2)) = Inr ex_dst"
    by (simp add: add_def list_setitem_def reshaped_idem ex_slot_def ex_dst_def)
  have "add_each (init 2) [Some (reshaped (ex_args 0)), Some (reshaped (ex_args 1)),
                           Some (reshaped (ex_args 2))] = Inr ex_dst"
    by (simp add: a0 a1 a2)
  then have t: "add_latest_from (init 2) ex_src 0 = Inr ex_dst"
    unfolding add_latest_from_def g by (simp add: ex_slot_def)
  have d: "get_latest ex_dst 0 = [ex_slot 2]"
    by (simp add: get_latest_def ex_dst_def slice_from_def slice_to_def slice_index_def)
  have f: "get_latest ex_full 0 = []"
    by (simp add: get_latest_def ex_full_def slice_from_def slice_to_def slice_index_def)
  show ?thesis using buffer_inv_ex_src t d g f by simp
qed

lemma sum_list_ones: "\<forall>a\<in>set arrays. hd (shape a) = Suc 0 \<Longrightarrow>
    sum_list (map (\<lambda>b. hd (shape b)) arrays) = length arrays"
  by (induction arrays) simp_all

lemma concatenate_rows:
  assumes "arrays \<noteq> []" "\<forall>a\<in>set arrays. shape a = [1, w]"
  shows "concatenate arrays = Inr (NDArray [length arrays, w] (concat (map flat arrays)))"
proof -
  from assms(1) obtain a rest where ar: "arrays = a # rest" by (cases arrays) auto
  have s: "sum_list (map (\<lambda>b. hd (shape b)) arrays) = length arrays"
    using assms(2) by (intro sum_list_ones) simp
  have "shape a = [1, w]" using assms(2) ar by simp
  moreover have "list_all (\<lambda>b. shape b \<noteq> [] \<and> tl (shape b) = [w]) rest"
    using assms(2) ar by (simp add: list_all_iff)
  ultimately show ?thesis using s unfolding concatenate_def ar by simp
qed

lemma concat_block:
  assumes "\<forall>xs\<in>set xss. length xs = w" "i < length xss"
  shows "take w (drop (i * w) (concat xss)) = xss ! i"
  using assms
proof (induction xss arbitrary: i)
  case Nil
  then show ?case by simp
next
  case (Cons xs xss)
  then have l: "length xs = w" by simp
  show ?case
  proof (cases i)
    case 0
    then show ?thesis using l by simp
  next
    case (Suc j)
    then have "take w (drop (j * w) (concat xss)) = xss ! j" using Cons by simp
    then show ?thesis using Suc l by simp
  qed
qed

lemma unpack_all_Some: "unpack_all (map Some us) = Inr us"
  by (induction us) simp_all

lemma row_stack:
  assumes "\<forall>a\<in>set arrays. shape a = [1, w] \<and> length (flat a) = w" "i < length arrays"
  shows "row (NDArray [length arrays, w] (concat (map flat arrays))) i = row (arrays ! i) 0"
proof -
  have "\<forall>xs\<in>set (map flat arrays). length xs = w" using assms(1) by simp
  from concat_block[OF this, of i] assms(2)
  have "take w (drop (i * w) (concat (map flat arrays))) = flat (arrays ! i)" by simp
  moreover have "shape (arrays ! i) = [1, w]" "length (flat (arrays ! i)) = w"
    using assms by simp_all
  ultimately show ?thesis by (simp add: row_def)
qed

lemma field_concatenate:
  assumes "us \<noteq> []" "\<forall>t\<in>set us. row_shaped (f t) \<and> length (flat (f t)) = w"
  shows "concatenate (map f us) = Inr (NDArray [length us, w] (concat (map flat (map f us))))"
proof -
  have "map f us \<noteq> []" using assms(1) by simp
  moreover have "\<forall>a\<in>set (map f us). shape a = [1, w]"
    using assms(2) by (auto simp add: row_shaped_def)
  ultimately show ?thesis using concatenate_rows[of "map f us" w] by simp
qed

lemma field_row:
  assumes "\<forall>t\<in>set us. row_shaped (f t) \<and> length (flat (f t)) = w" "i < length us"
  shows "row (NDArray [length us, w] (concat (map flat (map f us)))) i = row (f (us ! i)) 0"
proof -
  have "\<forall>a\<in>set (map f us). shape a = [1, w] \<and> length (flat a) = w"
    using assms(1) by (auto simp add: row_shaped_def)
  from row_stack[OF this, of i] assms(2) show ?thesis by simp
qed

lemma row_FloatTensor: "row (FloatTensor cast a) i = map cast (row a i)"
  by (simp add: row_def FloatTensor_def take_map drop_map)

lemma two_dim_rows_FloatTensor: "two_dim_rows (FloatTensor cast a) k = two_dim_rows a k"
  by (simp add: two_dim_rows_def n_rows_def FloatTensor_def)

lemma float32_of_int_small: "\<bar>x\<bar> < 2 ^ 24 \<Longrightarrow> float32_of_int x = x"
proof -
  assume a: "\<bar>x\<bar> < 2 ^ 24"
  then have "nat \<bar>x\<bar> < 2 ^ 24" by (simp add: nat_less_iff)
  then have "excess_bits (nat \<bar>x\<bar>) = 0" by (subst excess_bits.simps) simp
  then show ?thesis by (simp add: float32_of_int_def Let_def mult_sgn_abs)
qed

lemma group_batch_rows:
  assumes "us \<noteq> []" "\<forall>t\<in>set us. stored (Some t)"
    "\<forall>t\<in>set us. \<forall>v\<in>set us. field_widths t = field_widths v"
  shows "\<exists>st ac rw ns dn. group_batch cast (map Some us) = Inr (st, ac, rw, ns, dn) \<and>
           two_dim_rows st (length us) \<and> two_dim_rows ac (length us) \<and>
           two_dim_rows rw (length us) \<and> two_dim_rows ns (length us) \<and>
           two_dim_rows dn (length us) \<and>
           (\<forall>i<length us. row st i = map cast (row (state (us ! i)) 0) \<and>
              row ac i = map cast (row (action (us ! i)) 0) \<and>
              row rw i = map cast (row (reward (us ! i)) 0) \<and>
              row ns i = map cast (row (next_state (us ! i)) 0) \<and>
              row dn i = map cast (row (done_t (us ! i)) 0))"
proof -
  define u where "u = hd us"
  have u: "u \<in> set us" using assms(1) by (simp add: u_def)
  have w: "field_widths t = field_widths u" if "t \<in> set us" for t
    using assms(3) that u by blast
  have fs: "\<forall>t\<in>set us. row_shaped (state t) \<and> length (flat (state t)) = length (flat (state u))"
    using assms(2) w by (auto simp add: stored_def field_widths_def)
  have fa: "\<forall>t\<in>set us. row_shaped (action t) \<and> length (flat (action t)) = length (flat (action u))"
    using assms(2) w by (auto simp add: stored_def field_widths_def)
  have fr: "\<forall>t\<in>set us. row_shaped (reward t) \<and> length (flat (reward t)) = length (flat (reward u))"
    using assms(2) w by (auto simp add: stored_def field_widths_def)
  have fn: "\<forall>t\<in>set us. row_shaped (next_state t) \<and>
              length (flat (next_state t)) = length (flat (next_state u))"
    using assms(2) w by (auto simp add: stored_def field_widths_def)
  have fd: "\<forall>t\<in>set us. row_shaped (done_t t) \<and> length (flat (done_t t)) = length (flat (done_t u))"
    using assms(2) w by (auto simp add: stored_def field_widths_def)
  define st where "st = NDArray [length us, length (flat (state u))] (concat (map flat (map state us)))"
  define ac where "ac = NDArray [length us, length (flat (action u))] (concat (map flat (map action us)))"
  define rw where "rw = NDArray [length us, length (flat (reward u))] (concat (map flat (map reward us)))"
  define ns where "ns = NDArray [length us, length (flat (next_state u))]
                          (concat (map flat (map next_state us)))"
  define dn where "dn = NDArray [length us, length (flat (done_t u))] (concat (map flat (map done_t us)))"
  have c: "concatenate (map state us) = Inr st" "concatenate (map action us) = Inr ac"
    "concatenate (map reward us) = Inr rw" "concatenate (map next_state us) = Inr ns"
    "concatenate (map done_t us) = Inr dn"
    unfolding st_def ac_def rw_def ns_def dn_def
    using field_concatenate[OF assms(1) fs] field_concatenate[OF assms(1) fa]
      field_concatenate[OF assms(1) fr] field_concatenate[OF assms(1) fn]
      field_concatenate[OF assms(1) fd] by simp_all
  from assms(1) obtain x xs where x: "us = x # xs" by (cases us) auto
  have g: "group_batch cast (map Some us)
             = Inr (FloatTensor cast st, FloatTensor cast ac, FloatTensor cast rw,
                    FloatTensor cast ns, FloatTensor cast dn)"
    unfolding group_batch_def unpack_all_Some using c unfolding x by simp
  have t: "two_dim_rows (FloatTensor cast st) (length us)"
    "two_dim_rows (FloatTensor cast ac) (length us)"
    "two_dim_rows (FloatTensor cast rw) (length us)"
    "two_dim_rows (FloatTensor cast ns) (length us)"
    "two_dim_rows (FloatTensor cast dn) (length us)"
    unfolding two_dim_rows_FloatTensor
    by (simp_all add: two_dim_rows_def n_rows_def st_def ac_def rw_def ns_def dn_def)
  have r0: "\<forall>i<length us. row st i = row (state (us ! i)) 0 \<and> row ac i = row (action (us ! i)) 0 \<and>
              row rw i = row (reward (us ! i)) 0 \<and> row ns i = row (next_state (us ! i)) 0 \<and>
              row dn i = row (done_t (us ! i)) 0"
    unfolding st_def ac_def rw_def ns_def dn_def
    using field_row[OF fs] field_row[OF fa] field_row[OF fr] field_row[OF fn] field_row[OF fd]
    by blast
  have r: "\<forall>i<length us. row (FloatTensor cast st) i = map cast (row (state (us ! i)) 0) \<and>
              row (FloatTensor cast ac) i = map cast (row (action (us ! i)) 0) \<and>
              row (FloatTensor cast rw) i = map cast (row (reward (us ! i)) 0) \<and>
              row (FloatTensor cast ns) i = map cast (row (next_state (us ! i)) 0) \<and>
              row (FloatTensor cast dn) i = map cast (row (done_t (us ! i)) 0)"
    unfolding row_FloatTensor using r0 by simp
  from g t r show ?thesis by blast
qed

lemma sample_selected:
  assumes "memory b = map Some ts" "0 \<le> k" "k \<le> len b" "selection (length (memory b)) k sel"
  shows "sample cast sel b k = (group_batch cast (map Some (map (\<lambda>i. ts ! i) sel)), b)"
proof -
  from assms(4) have "\<forall>i\<in>set sel. i < length ts"
    by (simp add: selection_def list_all_iff assms(1))
  then have m: "map (\<lambda>i. memory b ! i) sel = map Some (map (\<lambda>i. ts ! i) sel)"
    by (simp add: assms(1))
  have "random_sample sel (memory b) k = Inr (map (\<lambda>i. memory b ! i) sel)"
    using assms(2,3) by (simp add: random_sample_def len_def)
  then show ?thesis unfolding sample_def m by simp
qed

lemma uniform_widths:
  assumes "uniform b" "memory b = map Some ts" "t \<in> set ts" "v \<in> set ts"
  shows "field_widths t = field_widths v"
proof -
  have "Some t \<in> set (memory b)" "Some v \<in> set (memory b)" using assms(2,3,4) by simp_all
  with assms(1) have "same_widths (Some t) (Some v)"
    unfolding uniform_def list_all_iff by blast
  then show ?thesis by (simp add: same_widths_def)
qed

lemma selected_batch:
  assumes "buffer_inv b" "uniform b" "memory b = map Some ts" "1 \<le> k"
    "selection (length (memory b)) k sel"
  shows "map (\<lambda>i. ts ! i) sel \<noteq> []"
    and "\<forall>t\<in>set (map (\<lambda>i. ts ! i) sel). stored (Some t)"
    and "\<forall>t\<in>set (map (\<lambda>i. ts ! i) sel). \<forall>v\<in>set (map (\<lambda>i. ts ! i) sel).
           field_widths t = field_widths v"
proof -
  from assms(5) have ls: "int (length sel) = k" and r: "\<forall>i\<in>set sel. i < length ts"
    by (simp_all add: selection_def list_all_iff assms(3))
  show "map (\<lambda>i. ts ! i) sel \<noteq> []" using ls assms(4) by auto
  have sub: "set (map (\<lambda>i. ts ! i) sel) \<subseteq> set ts" using r by auto
  from assms(1) have "list_all stored (map Some ts)" by (simp add: buffer_inv_def assms(3))
  then have "\<forall>t\<in>set ts. stored (Some t)" by (simp add: list_all_iff)
  with sub show "\<forall>t\<in>set (map (\<lambda>i. ts ! i) sel). stored (Some t)" by blast
  show "\<forall>t\<in>set (map (\<lambda>i. ts ! i) sel). \<forall>v\<in>set (map (\<lambda>i. ts ! i) sel).
           field_widths t = field_widths v"
    using sub uniform_widths[OF assms(2,3)] by blast
qed

text \<open>
  Claim C8, amended. For a buffer of the data model whose stored transitions agree, field
  by field, in their number of columns, and \<open>1 \<le> batch_size \<le> count\<close>, \<open>sample\<close>
  returns (whatever positions the generator chooses) five two-dimensional arrays in the
  order state, action, reward, next\_state, done, each with \<open>batch_size\<close> rows; row \<open>i\<close>
  of each is the row of the same field of one stored transition, the one at the \<open>i\<close>-th
  chosen position, with every element converted to float32 (for every conversion
  \<open>cast\<close> of an element).
\<close>
theorem sample_grouping:
  assumes "buffer_inv self" "uniform self" "1 \<le> batch_size" "batch_size \<le> len self"
    "selection (length (memory self)) batch_size sel"
  shows "\<exists>st ac rw ns dn. sample cast sel self batch_size = (Inr (st, ac, rw, ns, dn), self) \<and>
           two_dim_rows st (nat batch_size) \<and> two_dim_rows ac (nat batch_size) \<and>
           two_dim_rows rw (nat batch_size) \<and> two_dim_rows ns (nat batch_size) \<and>
           two_dim_rows dn (nat batch_size) \<and>
           (\<forall>i<nat batch_size. \<exists>t. memory self ! (sel ! i) = Some t \<and> Some t \<in> set (memory self) \<and>
              row st i = map cast (row (state t) 0) \<and> row ac i = map cast (row (action t) 0) \<and>
              row rw i = map cast (row (reward t) 0) \<and>
              row ns i = map cast (row (next_state t) 0) \<and>
              row dn i = map cast (row (done_t t) 0))"
proof -
  from assms(1) have "list_all stored (memory self)" by (simp add: buffer_inv_def)
  then obtain ts where ts: "memory self = map Some ts" using stored_list by blast
  define us where "us = map (\<lambda>i. ts ! i) sel"
  from assms(5) have ls: "length sel = nat batch_size" and r: "\<forall>i\<in>set sel. i < length ts"
    by (auto simp add: selection_def list_all_iff ts)
  have lu: "length us = nat batch_size" by (simp add: us_def ls)
  have k0: "0 \<le> batch_size" using assms(3) by simp
  have s: "sample cast sel self batch_size = (group_batch cast (map Some us), self)"
    unfolding us_def by (rule sample_selected[OF ts k0 assms(4,5)])
  note sb = selected_batch[OF assms(1,2) ts assms(3,5), folded us_def]
  from group_batch_rows[OF sb, of cast] obtain st ac rw ns dn where
    g: "group_batch cast (map Some us) = Inr (st, ac, rw, ns, dn)"
    and t: "two_dim_rows st (length us)" "two_dim_rows ac (length us)"
      "two_dim_rows rw (length us)" "two_dim_rows ns (length us)" "two_dim_rows dn (length us)"
    and rws: "\<forall>i<length us. row st i = map cast (row (state (us ! i)) 0) \<and>
              row ac i = map cast (row (action (us ! i)) 0) \<and>
              row rw i = map cast (row (reward (us ! i)) 0) \<and>
              row ns i = map cast (row (next_state (us ! i)) 0) \<and>
              row dn i = map cast (row (done_t (us ! i)) 0)"
    by blast
  have "\<exists>t. memory self ! (sel ! i) = Some t \<and> Some t \<in> set (memory self) \<and>
              row st i = map cast (row (state t) 0) \<and> row ac i = map cast (row (action t) 0) \<and>
              row rw i = map cast (row (reward t) 0) \<and>
              row ns i = map cast (row (next_state t) 0) \<and>
              row dn i = map cast (row (done_t t) 0)" if i: "i < nat batch_size" for i
  proof -
    have il: "i < length sel" using i ls by simp
    then have si: "sel ! i < length ts" using r by simp
    have ui: "us ! i = ts ! (sel ! i)" using il by (simp add: us_def)
    have m: "memory self ! (sel ! i) = Some (us ! i)" using si by (simp add: ts ui)
    have "Some (us ! i) \<in> set (memory self)" using si by (simp add: ts ui)
    with m rws i lu show ?thesis by auto
  qed
  with s g t lu show ?thesis by auto
qed

text \<open>
  Claim C6, amended. \<open>sample\<close> never changes the buffer. It raises ValueError when
  \<open>batch_size\<close> exceeds the stored count and also when \<open>batch_size\<close> is negative. For a
  buffer of the data model whose stored transitions agree in their numbers of columns, it
  raises ValueError in no other case: with \<open>0 \<le> batch_size \<le> count\<close> the outcome is not
  ValueError, whatever positions the generator chooses.
\<close>
theorem sample_error:
  "snd (sample cast sel self batch_size) = self \<and>
   (batch_size < 0 \<or> len self < batch_size \<longrightarrow>
      fst (sample cast sel self batch_size) = Inl ValueError) \<and>
   (buffer_inv self \<and> uniform self \<and> 0 \<le> batch_size \<and> batch_size \<le> len self \<and>
    selection (length (memory self)) batch_size sel \<longrightarrow>
      fst (sample cast sel self batch_size) \<noteq> Inl ValueError)"
proof -
  have a: "snd (sample cast sel self batch_size) = self"
    by (simp add: sample_def split: sum.splits)
  have b: "batch_size < 0 \<or> len self < batch_size \<longrightarrow>
      fst (sample cast sel self batch_size) = Inl ValueError"
    by (auto simp add: sample_def random_sample_def len_def)
  have c: "fst (sample cast sel self batch_size) \<noteq> Inl ValueError"
    if h: "buffer_inv self \<and> uniform self \<and> 0 \<le> batch_size \<and> batch_size \<le> len self \<and>
           selection (length (memory self)) batch_size sel"
  proof -
    from h have "list_all stored (memory self)" by (simp add: buffer_inv_def)
    then obtain ts where ts: "memory self = map Some ts" using stored_list by blast
    from h have k0: "0 \<le> batch_size" and kl: "batch_size \<le> len self"
      and se: "selection (length (memory self)) batch_size sel" by simp_all
    have s: "sample cast sel self batch_size
               = (group_batch cast (map Some (map (\<lambda>i. ts ! i) sel)), self)"
      by (rule sample_selected[OF ts k0 kl se])
    show ?thesis
    proof (cases "batch_size = 0")
      case True
      with se have "sel = []" by (simp add: selection_def)
      then show ?thesis using s by (simp add: group_batch_def)
    next
      case False
      with k0 have k1: "1 \<le> batch_size" by simp
      from h have i: "buffer_inv self" and u: "uniform self" by simp_all
      from group_batch_rows[OF selected_batch[OF i u ts k1 se], of cast]
      obtain r where "group_batch cast (map Some (map (\<lambda>i. ts ! i) sel)) = Inr r" by blast
      then show ?thesis using s by simp
    qed
  qed
  from a b c show ?thesis by blast
qed

lemma buffer_inv_ex_full: "buffer_inv ex_full"
  by (simp add: buffer_inv_def ex_full_def ex_slot_def stored_reshaped)

lemma uniform_ex_full: "uniform ex_full"
  by (simp add: uniform_def ex_full_def same_widths_def field_widths_def ex_slot_def
      reshaped_def reshape_row_def ex_args_def)

lemma selection_ex: "selection (length (memory ex_full)) 2 [1, 0]"
  by (simp add: selection_def ex_full_def)

lemma sample_ex_full:
  "sample float32_of_int [1, 0] ex_full 2 =
     (Inr (NDArray [2, 2] [1, 2, 0, 1], NDArray [2, 1] [1, 0], NDArray [2, 1] [1, 0],
           NDArray [2, 2] [2, 3, 1, 2], NDArray [2, 1] [0, 0]), ex_full)"
  by (simp add: sample_def random_sample_def group_batch_def concatenate_def ex_full_def
      ex_slot_def reshaped_def reshape_row_def ex_args_def FloatTensor_def float32_of_int_small)

theorem sample_grouping_witness:
  "sample float32_of_int [1, 0] ex_full 2 =
     (Inr (NDArray [2, 2] [1, 2, 0, 1], NDArray [2, 1] [1, 0], NDArray [2, 1] [1, 0],
           NDArray [2, 2] [2, 3, 1, 2], NDArray [2, 1] [0, 0]), ex_full) \<and>
   two_dim_rows (NDArray [2, 2] [1, 2, 0, 1 :: int]) 2 \<and>
   memory ex_full ! ([1, 0] ! 0) = ex_slot 1 \<and>
   row (NDArray [2, 2] [1, 2, 0, 1 :: int]) 0
     = map float32_of_int (row (state (reshaped (ex_args 1))) 0)"
proof -
  have l: "2 \<le> len ex_full" by (simp add: len_def ex_full_def)
  from sample_grouping[OF buffer_inv_ex_full uniform_ex_full _ l selection_ex, of float32_of_int]
  obtain st ac rw ns dn where
    s: "sample float32_of_int [1, 0] ex_full 2 = (Inr (st, ac, rw, ns, dn), ex_full)"
    and t: "two_dim_rows st (nat 2)"
    and r: "\<forall>i<nat 2. \<exists>t. memory ex_full ! ([1, 0] ! i) = Some t \<and> Some t \<in> set (memory ex_full) \<and>
              row st i = map float32_of_int (row (state t) 0) \<and>
              row ac i = map float32_of_int (row (action t) 0) \<and>
              row rw i = map float32_of_int (row (reward t) 0) \<and>
              row ns i = map float32_of_int (row (next_state t) 0) \<and>
              row dn i = map float32_of_int (row (done_t t) 0)"
    by auto
  from s have st: "st = NDArray [2, 2] [1, 2, 0, 1]" unfolding sample_ex_full by simp
  have m: "memory ex_full ! ([1, 0] ! 0) = ex_slot 1" by (simp add: ex_full_def)
  have z: "(0::nat) < nat 2" by simp
  note r[rule_format, OF z]
  then have "\<exists>t. memory ex_full ! ([1, 0] ! 0) = Some t \<and>
               row st 0 = map float32_of_int (row (state t) 0)"
    by blast
  then have "row st 0 = map float32_of_int (row (state (reshaped (ex_args 1))) 0)"
    unfolding m by (simp add: ex_slot_def)
  then have rr: "row (NDArray [2, 2] [1, 2, 0, 1 :: int]) 0
                   = map float32_of_int (row (state (reshaped (ex_args 1))) 0)"
    unfolding st .
  have t': "two_dim_rows (NDArray [2, 2] [1, 2, 0, 1 :: int]) 2" using t unfolding st by simp
  show ?thesis by (intro conjI sample_ex_full t' m rr)
qed

lemma float32_of_int_big: "float32_of_int 16777217 = 16777216"
proof -
  have "excess_bits 8388608 = 0" by (subst excess_bits.simps) simp
  then have "excess_bits 16777217 = Suc 0" by (subst excess_bits.simps) simp
  then show ?thesis by (simp add: float32_of_int_def Let_def)
qed

text \<open>
  Claim C8 as stated fails in two ways. A buffer may hold transitions that differ in a
  field's number of columns, which \<open>add\<close> accepts: with states of two and of three
  elements stored and both sampled, concatenating the states raises ValueError. And a
  returned row is the float32 conversion of the stored row, not the stored row: a stored
  state \<open>16777217\<close> (\<open>2 ^ 24 + 1\<close>) comes back as \<open>16777216\<close>.
\<close>
theorem sample_grouping_counterexample:
  "add_all (init 2) [ex_args 0, ex_wide] = Inr ex_mixed \<and> buffer_inv ex_mixed \<and>
   (1::int) \<le> 2 \<and> 2 \<le> len ex_mixed \<and> selection (length (memory ex_mixed)) 2 [0, 1] \<and>
   sample float32_of_int [0, 1] ex_mixed 2 = (Inl ValueError, ex_mixed) \<and>
   add_all (init 1) [ex_big_args] = Inr ex_big \<and>
   sample float32_of_int [0] ex_big 1 =
     (Inr (NDArray [1, 1] [16777216], NDArray [1, 1] [0], NDArray [1, 1] [0],
           NDArray [1, 1] [16777216], NDArray [1, 1] [0]), ex_big) \<and>
   memory ex_big = [Some (reshaped ex_big_args)] \<and>
   row (state (reshaped ex_big_args)) 0 = [16777217] \<and>
   row (NDArray [1, 1] [16777216 :: int]) 0 \<noteq> row (state (reshaped ex_big_args)) 0"
proof -
  have "0 < capacity (init 2 :: int replay_memory)"
    "int (length (memory (init 2 :: int replay_memory)) + length [ex_args 0, ex_wide])
       \<le> capacity (init 2 :: int replay_memory)"
    "position (init 2 :: int replay_memory)
       = int (length (memory (init 2 :: int replay_memory))) mod capacity (init 2 :: int replay_memory)"
    by (simp_all add: init_def)
  from add_all_append[OF this]
  have a: "add_all (init 2) [ex_args 0, ex_wide] = Inr ex_mixed"
    by (simp add: init_def ex_mixed_def ex_slot_def)
  have i: "buffer_inv ex_mixed"
    by (simp add: buffer_inv_def ex_mixed_def ex_slot_def stored_reshaped)
  have l: "2 \<le> len ex_mixed" by (simp add: len_def ex_mixed_def)
  have s: "selection (length (memory ex_mixed)) 2 [0, 1]"
    by (simp add: selection_def ex_mixed_def)
  have "concatenate [state (reshaped (ex_args 0)), state (reshaped ex_wide)] = Inl ValueError"
    by (simp add: concatenate_def reshaped_def reshape_row_def ex_args_def ex_wide_def)
  then have "group_batch float32_of_int [ex_slot 0, Some (reshaped ex_wide)] = Inl ValueError"
    by (simp add: group_batch_def ex_slot_def)
  then have e: "sample float32_of_int [0, 1] ex_mixed 2 = (Inl ValueError, ex_mixed)"
    by (simp add: sample_def random_sample_def ex_mixed_def)
  have "0 < capacity (init 1 :: int replay_memory)"
    "int (length (memory (init 1 :: int replay_memory)) + length [ex_big_args])
       \<le> capacity (init 1 :: int replay_memory)"
    "position (init 1 :: int replay_memory)
       = int (length (memory (init 1 :: int replay_memory))) mod capacity (init 1 :: int replay_memory)"
    by (simp_all add: init_def)
  from add_all_append[OF this]
  have a2: "add_all (init 1) [ex_big_args] = Inr ex_big"
    by (simp add: init_def ex_big_def)
  have e2: "sample float32_of_int [0] ex_big 1 =
     (Inr (NDArray [1, 1] [16777216], NDArray [1, 1] [0], NDArray [1, 1] [0],
           NDArray [1, 1] [16777216], NDArray [1, 1] [0]), ex_big)"
    by (simp add: sample_def random_sample_def group_batch_def concatenate_def ex_big_def
        reshaped_def reshape_row_def ex_big_args_def FloatTensor_def float32_of_int_small
        float32_of_int_big)
  have m: "memory ex_big = [Some (reshaped ex_big_args)]" by (simp add: ex_big_def)
  have r: "row (state (reshaped ex_big_args)) 0 = [16777217]"
    by (simp add: row_def reshaped_def reshape_row_def ex_big_args_def)
  have n: "row (NDArray [1, 1] [16777216 :: int]) 0 \<noteq> row (state (reshaped ex_big_args)) 0"
    unfolding r by (simp add: row_def)
  show ?thesis by (intro conjI a i l s e a2 e2 m r n) simp
qed

theorem sample_error_witness:
  "sample float32_of_int [1, 0] ex_full 3 = (Inl ValueError, ex_full) \<and>
   snd (sample float32_of_int [1, 0] ex_full 2) = ex_full \<and>
   fst (sample float32_of_int [1, 0] ex_full 2) \<noteq> Inl ValueError"
proof -
  have l: "len ex_full = 2" by (simp add: len_def ex_full_def)
  from sample_error[of float32_of_int "[1, 0]" ex_full 3]
  have a: "sample float32_of_int [1, 0] ex_full 3 = (Inl ValueError, ex_full)"
    by (simp add: l prod_eq_iff)
  from sample_error[of float32_of_int "[1, 0]" ex_full 2]
    buffer_inv_ex_full uniform_ex_full selection_ex
  have b: "snd (sample float32_of_int [1, 0] ex_full 2) = ex_full \<and>
           fst (sample float32_of_int [1, 0] ex_full 2) \<noteq> Inl ValueError"
    by (simp add: l)
  from a b show ?thesis by simp
qed

text \<open>
  Claim C6 as stated fails for a negative \<open>batch_size\<close>: \<open>random.sample\<close> raises
  ValueError although \<open>batch_size\<close> does not exceed the stored count.
\<close>
theorem sample_negative_counterexample:
  "buffer_inv ex_full \<and> uniform ex_full \<and> \<not> len ex_full < - 1 \<and>
   sample float32_of_int [] ex_full (- 1) = (Inl ValueError, ex_full)"
proof -
  have "\<not> len ex_full < - 1" by (simp add: len_def)
  moreover have "sample float32_of_int [] ex_full (- 1) = (Inl ValueError, ex_full)"
    by (simp add: sample_def random_sample_def)
  ultimately show ?thesis using buffer_inv_ex_full uniform_ex_full by simp
qed

end
